theory Spec2Isabelle
  imports Complex_Main "HOL-Library.Sublist"
begin

section \<open>Data model\<close>

text \<open>
  Values a target option can hold in a workflow file: an integer (\<open>cores\<close>), a string
  (\<open>memory\<close>, \<open>walltime\<close>, \<open>queue\<close>, \<open>account\<close>) or Python's \<open>None\<close>.
\<close>

datatype option_value = IntV int | StrV string | NoneV

text \<open>
  Modelled from the spec: the class \<open>Target\<close> is not among the sources. The fields are the
  ones the backends read: the unique name, the options (a Python dict, kept in insertion
  order because \<open>compile_script\<close> iterates over \<open>options.items()\<close>), the working
  directory and the literal script body.
\<close>

record target =
  name :: string
  options :: "(string \<times> option_value) list"
  working_dir :: string
  spec :: string

text \<open>Every exception the modelled code can raise.\<close>

datatype error =
    WorkflowNotPreparedError
  | TypeError
  | ValueError
  | KeyError string
  | ZeroDivisionError
  | AttributeError
  | AssertionError
  | SubmissionError

text \<open>
  Modelled from the spec: the enumeration \<open>BackendStatus\<close> is imported by \<open>sge.py\<close> from a
  module that is not among the sources; the specification lists its three members.
\<close>

datatype BackendStatus = UNKNOWN | SUBMITTED | RUNNING

section \<open>Python string helpers\<close>

definition newline :: char where
  "newline = CHR 0x0A"

definition dquote :: char where
  "dquote = CHR 0x22"

definition is_digit :: "char \<Rightarrow> bool" where
  "is_digit c = (c \<in> set ''0123456789'')"

definition digit_val :: "char \<Rightarrow> int" where
  "digit_val c = int (of_char c) - 48"

text \<open>The number a string of decimal digits denotes, most significant digit first.\<close>

definition digits_value :: "string \<Rightarrow> int" where
  "digits_value s = foldl (\<lambda>acc c. 10 * acc + digit_val c) 0 s"

text \<open>
  \<open>int(s)\<close> on a string of ASCII digits; the empty string raises \<open>ValueError\<close>. (The
  interpreter's cap on the length of a digit string is left out.)
\<close>

definition py_int :: "string \<Rightarrow> error + int" where
  "py_int s = (if s = [] \<or> \<not> list_all is_digit s then Inl ValueError
               else Inr (digits_value s))"

definition digit_char :: "nat \<Rightarrow> char" where
  "digit_char d = ''0123456789'' ! d"

function str_nat :: "nat \<Rightarrow> string" where
  "str_nat n = (if n < 10 then [digit_char n] else str_nat (n div 10) @ [digit_char (n mod 10)])"
  by pat_completeness auto
termination
  by (relation "measure (\<lambda>n. n)") auto

declare str_nat.simps [simp del]

text \<open>\<open>str(i)\<close> for a Python integer.\<close>

definition str_int :: "int \<Rightarrow> string" where
  "str_int i = (if i < 0 then CHR ''-'' # str_nat (nat (- i)) else str_nat (nat i))"

text \<open>What \<open>str.format\<close> inserts for an option value.\<close>

fun py_str :: "option_value \<Rightarrow> string" where
  "py_str (IntV i) = str_int i"
| "py_str (StrV s) = s"
| "py_str NoneV = ''None''"

text \<open>\<open>sep.join(xs)\<close>.\<close>

fun join :: "string \<Rightarrow> string list \<Rightarrow> string" where
  "join sep [] = []"
| "join sep [x] = x"
| "join sep (x # y # ys) = x @ sep @ join sep (y # ys)"

text \<open>\<open>os.path.join\<close> on a POSIX host, for two components and then for many.\<close>

definition path_join2 :: "string \<Rightarrow> string \<Rightarrow> string" where
  "path_join2 a b =
     (if b \<noteq> [] \<and> hd b = CHR ''/'' then b
      else if a = [] \<or> last a = CHR ''/'' then a @ b
      else a @ ''/'' @ b)"

definition path_join :: "string \<Rightarrow> string list \<Rightarrow> string" where
  "path_join a bs = foldl path_join2 a bs"

text \<open>
  Modelled from the spec: \<open>gwf.utils.ensure_trailing_newline\<close> is not among the sources;
  the specification asks for the literal target body with a guaranteed trailing newline.
\<close>

definition ensure_trailing_newline :: "string \<Rightarrow> string" where
  "ensure_trailing_newline s = (if s \<noteq> [] \<and> last s = newline then s else s @ [newline])"

section \<open>The SGE backend operations\<close>

definition TARGET_DEFAULTS :: "(string \<times> option_value) list" where
  "TARGET_DEFAULTS =
     [(''cores'', IntV 1), (''memory'', StrV ''1g''), (''walltime'', StrV ''01:00:00''),
      (''queue'', NoneV), (''account'', NoneV)]"

definition OPTION_FLAGS :: "(string \<times> string) list" where
  "OPTION_FLAGS =
     [(''cores'', ''-pe smp ''), (''memory'', ''-l h_vmem=''), (''walltime'', ''-l h_rt=''),
      (''queue'', ''-q ''), (''account'', ''-P '')]"

record SGEOps =
  ops_working_dir :: string
  target_defaults :: "(string \<times> option_value) list"

text \<open>\<open>"#$ {0}{1}".format(flag, value)\<close>.\<close>

definition option_str :: "string \<Rightarrow> string \<Rightarrow> string" where
  "option_str flag v = ''#$ '' @ flag @ v"

text \<open>
  The body of the \<open>if option_name == "memory"\<close> branch: the digits of the value are read as
  one number, everything else is the unit, and the number is floor-divided by the
  \<open>cores\<close> option. \<open>re.sub\<close> rejects a value that is not a string, \<open>int\<close> rejects an empty
  digit string, a missing \<open>cores\<close> key raises \<open>KeyError\<close>, and \<open>//\<close> raises on a zero or
  non-integer divisor.
\<close>

definition per_core_memory :: "target \<Rightarrow> option_value \<Rightarrow> error + option_value" where
  "per_core_memory t option_value =
     (case option_value of
        StrV s \<Rightarrow>
          (case py_int (filter is_digit s) of
             Inl e \<Rightarrow> Inl e
           | Inr number \<Rightarrow>
               (let unit = filter (\<lambda>c. \<not> is_digit c) s in
                case map_of (options t) ''cores'' of
                  None \<Rightarrow> Inl (KeyError ''cores'')
                | Some (IntV cores) \<Rightarrow>
                    if cores = 0 then Inl ZeroDivisionError
                    else Inr (StrV (str_int (number div cores) @ unit))
                | Some _ \<Rightarrow> Inl TypeError))
      | _ \<Rightarrow> Inl TypeError)"

text \<open>One iteration of the loop over \<open>target.options.items()\<close>: the directive line.\<close>

definition option_line :: "target \<Rightarrow> string \<times> option_value \<Rightarrow> error + string" where
  "option_line t item =
     (case (if fst item = ''memory'' then per_core_memory t (snd item) else Inr (snd item)) of
        Inl e \<Rightarrow> Inl e
      | Inr option_value \<Rightarrow>
          (case map_of OPTION_FLAGS (fst item) of
             None \<Rightarrow> Inl (KeyError (fst item))
           | Some flag \<Rightarrow> Inr (option_str flag (py_str option_value))))"

fun option_lines :: "target \<Rightarrow> (string \<times> option_value) list \<Rightarrow> error + string list" where
  "option_lines t [] = Inr []"
| "option_lines t (item # items) =
     (case option_line t item of
        Inl e \<Rightarrow> Inl e
      | Inr line \<Rightarrow>
          (case option_lines t items of
             Inl e \<Rightarrow> Inl e
           | Inr lines \<Rightarrow> Inr (line # lines)))"

text \<open>The list \<open>out\<close> of \<open>compile_script\<close>, before it is joined with newlines.\<close>

definition script_lines :: "SGEOps \<Rightarrow> target \<Rightarrow> string list \<Rightarrow> string list" where
  "script_lines ops t opts =
     [''#!/bin/bash'', ''# Generated by: gwf'', option_str ''-N '' (name t),
      ''#$ -V'', ''#$ -w v'', ''#$ -cwd'']
     @ opts
     @ [option_str ''-o '' (path_join (ops_working_dir ops) [''.gwf'', ''logs'', name t @ ''.stdout'']),
        option_str ''-e '' (path_join (ops_working_dir ops) [''.gwf'', ''logs'', name t @ ''.stderr'']),
        '''',
        ''cd '' @ working_dir t,
        ''export GWF_JOBID=$SGE_JOBID'',
        ''export GWF_TARGET_NAME='' @ [dquote] @ name t @ [dquote],
        ''set -e'',
        '''',
        ensure_trailing_newline (spec t)]"

definition compile_lines :: "SGEOps \<Rightarrow> target \<Rightarrow> error + string list" where
  "compile_lines ops t =
     (case option_lines t (options t) of
        Inl e \<Rightarrow> Inl e
      | Inr opts \<Rightarrow> Inr (script_lines ops t opts))"

definition compile_script :: "SGEOps \<Rightarrow> target \<Rightarrow> error + string" where
  "compile_script ops t =
     (case compile_lines ops t of
        Inl e \<Rightarrow> Inl e
      | Inr out \<Rightarrow> Inr (join [newline] out))"

text \<open>
  \<open>gwf.backends.utils.call\<close> runs an external command; it is a parameter of the model:
  program, arguments and standard input go in, the captured output or an error comes out.
\<close>

type_synonym call_fn = "string \<Rightarrow> string list \<Rightarrow> string option \<Rightarrow> error + string"

definition cancel_job :: "call_fn \<Rightarrow> string \<Rightarrow> error + string" where
  "cancel_job call job_id = call ''qdel'' [job_id] None"

text \<open>The list \<open>args\<close> built by \<open>submit_target\<close>; \<open>if dependencies:\<close> tests for a non-empty list.\<close>

definition submit_args :: "string list \<Rightarrow> string list" where
  "submit_args dependencies =
     [''-terse''] @ (if dependencies \<noteq> [] then [''-hold_jid'', join '','' dependencies] else [])"

definition submit_target :: "call_fn \<Rightarrow> SGEOps \<Rightarrow> target \<Rightarrow> string list \<Rightarrow> error + string" where
  "submit_target call ops t dependencies =
     (case compile_script ops t of
        Inl e \<Rightarrow> Inl e
      | Inr script \<Rightarrow> call ''qsub'' (submit_args dependencies) (Some script))"

subsection \<open>Reading the status listing\<close>

text \<open>
  An element of the parsed XML document, as \<open>xml.etree.ElementTree\<close> has it: a tag, the
  text before the first child (\<open>None\<close> when there is none) and the children in document
  order.
\<close>

datatype element = Element (el_tag: string) (el_text: "string option") (el_children: "element list")

text \<open>\<open>Element.iter(tag)\<close>: the element itself and all its descendants, in document order.\<close>

fun iter :: "string \<Rightarrow> element \<Rightarrow> element list" where
  "iter tg (Element t tx cs) =
     (if t = tg then [Element t tx cs] else []) @ concat (map (iter tg) cs)"

text \<open>\<open>Element.find(tag)\<close>: the first direct child with that tag.\<close>

definition find_child :: "string \<Rightarrow> element \<Rightarrow> element option" where
  "find_child tg e = List.find (\<lambda>c. el_tag c = tg) (el_children e)"

text \<open>The state-code heuristic of \<open>get_job_states\<close>.\<close>

definition guess_job_state :: "string \<Rightarrow> BackendStatus" where
  "guess_job_state state =
     (if CHR ''d'' \<in> set state \<or> CHR ''E'' \<in> set state then UNKNOWN
      else if CHR ''r'' \<in> set state \<or> CHR ''t'' \<in> set state \<or> CHR ''s'' \<in> set state then RUNNING
      else SUBMITTED)"

text \<open>
  The loop over \<open>root.iter("job_list")\<close>. \<open>job.find(...)\<close> returning \<open>None\<close> makes the
  attribute access \<open>.text\<close> raise; a missing text fails the assertion.
\<close>

fun job_states_loop ::
  "element list \<Rightarrow> (string \<rightharpoonup> BackendStatus) \<Rightarrow> error + (string \<rightharpoonup> BackendStatus)" where
  "job_states_loop [] job_states = Inr job_states"
| "job_states_loop (job # jobs) job_states =
     (case find_child ''JB_job_number'' job of
        None \<Rightarrow> Inl AttributeError
      | Some id_el \<Rightarrow>
          (case find_child ''state'' job of
             None \<Rightarrow> Inl AttributeError
           | Some state_el \<Rightarrow>
               (case el_text id_el of
                  None \<Rightarrow> Inl AssertionError
                | Some job_id \<Rightarrow>
                    (case el_text state_el of
                       None \<Rightarrow> Inl AssertionError
                     | Some state \<Rightarrow>
                         job_states_loop jobs (job_states(job_id \<mapsto> guess_job_state state))))))"

text \<open>
  \<open>get_job_states\<close>. The XML parser \<open>ElementTree.fromstring\<close> is a parameter, like
  \<open>call\<close>. The argument \<open>tracked_jobs\<close> is never read.
\<close>

definition get_job_states ::
  "call_fn \<Rightarrow> (string \<Rightarrow> error + element) \<Rightarrow> string list \<Rightarrow> error + (string \<rightharpoonup> BackendStatus)" where
  "get_job_states call fromstring tracked_jobs =
     (case call ''qstat'' [''-f'', ''-xml''] None of
        Inl e \<Rightarrow> Inl e
      | Inr xml \<Rightarrow>
          (case fromstring xml of
             Inl e \<Rightarrow> Inl e
           | Inr tree \<Rightarrow> job_states_loop (iter ''job_list'' tree) Map.empty))"

text \<open>The job number and the state text of one \<open>job_list\<close> element, when both are there.\<close>

definition job_id_of :: "element \<Rightarrow> string option" where
  "job_id_of job = Option.bind (find_child ''JB_job_number'' job) el_text"

definition job_state_of :: "element \<Rightarrow> string option" where
  "job_state_of job = Option.bind (find_child ''state'' job) el_text"

section \<open>The backend base class\<close>

text \<open>
  Modelled from the spec: the class \<open>PreparedWorkflow\<close> is not among the sources. The
  fields are what \<open>Backend\<close> reads: the dict of targets by name, the dict of dependencies
  (the specification's \<open>dependenciesOf\<close>; a target without an entry has none) and the
  staleness oracle \<open>should_run\<close>.
\<close>

record prepared_workflow =
  targets :: "(string \<times> target) list"
  dependencies :: "(target \<times> target list) list"
  should_run :: "target \<Rightarrow> bool"

text \<open>What a caller may hand to the constructor: a prepared workflow or something else.\<close>

datatype workflow_obj = PreparedWorkflow prepared_workflow | OtherObject

text \<open>
  What a concrete backend class supplies: its name, the \<open>supported_options\<close> property (the
  base class property has no \<open>return\<close>, so it yields \<open>None\<close> unless overridden) and the
  abstract methods \<open>submitted\<close> and \<open>submit\<close> over the backend's own state \<open>'s\<close>.
\<close>

record 's backend_class =
  backend_name :: string
  supported_options :: "string list option"
  submitted :: "'s \<Rightarrow> target \<Rightarrow> bool"
  submit :: "'s \<Rightarrow> target \<Rightarrow> error + 's"

definition all_options :: "prepared_workflow \<Rightarrow> string set" where
  "all_options wfl = (\<Union>t \<in> snd ` set (targets wfl). fst ` set (options t))"

definition unsupported_warning :: "string \<Rightarrow> string \<Rightarrow> string" where
  "unsupported_warning bname option_name =
     ''Backend '' @ [dquote] @ bname @ [dquote] @ '' does not support option ''
       @ [dquote] @ option_name @ [dquote] @ ''.''"

text \<open>
  \<open>Backend.__init__\<close>: the bound workflow and the set of warnings logged (a set, since the
  loop runs over a Python set in no particular order). \<open>option_name not in None\<close> raises
  \<open>TypeError\<close> the first time the loop body runs.
\<close>

definition Backend_init ::
  "'s backend_class \<Rightarrow> workflow_obj \<Rightarrow> error + (prepared_workflow \<times> string set)" where
  "Backend_init cls w =
     (case w of
        OtherObject \<Rightarrow> Inl WorkflowNotPreparedError
      | PreparedWorkflow wfl \<Rightarrow>
          (case supported_options cls of
             None \<Rightarrow> if all_options wfl = {} then Inr (wfl, {}) else Inl TypeError
           | Some supported \<Rightarrow>
               Inr (wfl, unsupported_warning (backend_name cls) `
                          {option_name \<in> all_options wfl. option_name \<notin> set supported})))"

subsection \<open>Depth-first traversal\<close>

text \<open>
  Modelled from the spec: the lookup of a target in the dependency dict, which the
  traversal performs, is not among the sources. The specification's \<open>dependenciesOf\<close>
  answers for every target, so a target without an entry has no dependencies.
\<close>

definition dependencies_of :: "(target \<times> target list) list \<Rightarrow> target \<Rightarrow> target list" where
  "dependencies_of deps t = (case map_of deps t of None \<Rightarrow> [] | Some ds \<Rightarrow> ds)"

text \<open>
  Modelled from the spec: \<open>gwf.utils.dfs\<close> is not among the sources. The specification
  describes a depth-first traversal of the transitive dependency set in post-order, a
  dependency being considered before the targets that need it. The traversal keeps a set
  of visited nodes and appends a node to the path once all its dependencies are done. The
  first argument bounds the depth of the recursion; \<open>None\<close> means the bound was reached.
\<close>

fun dfs_inner ::
    "nat \<Rightarrow> (target \<Rightarrow> target list) \<Rightarrow> target \<Rightarrow> target set \<times> target list
       \<Rightarrow> (target set \<times> target list) option"
  and dfs_each ::
    "nat \<Rightarrow> (target \<Rightarrow> target list) \<Rightarrow> target list \<Rightarrow> target set \<times> target list
       \<Rightarrow> (target set \<times> target list) option" where
  "dfs_inner 0 deps node st = None"
| "dfs_inner (Suc k) deps node st =
     (if node \<in> fst st then Some st
      else (case dfs_each k deps (deps node) (insert node (fst st), snd st) of
              None \<Rightarrow> None
            | Some st' \<Rightarrow> Some (fst st', snd st' @ [node])))"
| "dfs_each k deps [] st = Some st"
| "dfs_each k deps (d # ds) st =
     (case dfs_inner k deps d st of
        None \<Rightarrow> None
      | Some st' \<Rightarrow> dfs_each k deps ds st')"

text \<open>Every target the dependency dict mentions, as a key or as a dependency.\<close>

definition graph_nodes :: "(target \<times> target list) list \<Rightarrow> target list" where
  "graph_nodes deps = map fst deps @ concat (map snd deps)"

text \<open>
  \<open>dfs(root, dependencies)\<close>, the root being \<open>start\<close> here: the recursion is no deeper than the number of targets, so the
  bound below is never reached (lemma \<open>dfs_bound_suffices\<close>).
\<close>

definition dfs_bound :: "(target \<times> target list) list \<Rightarrow> nat" where
  "dfs_bound deps = Suc (Suc (length (graph_nodes deps)))"

definition dfs :: "target \<Rightarrow> (target \<times> target list) list \<Rightarrow> target list" where
  "dfs start deps =
     (case dfs_inner (dfs_bound deps) (dependencies_of deps) start ({}, []) of
        None \<Rightarrow> []
      | Some st \<Rightarrow> snd st)"

text \<open>
  A path lists dependencies first when no target occurs twice and every dependency of a
  target on the path occurs before that target.
\<close>

definition dependencies_first :: "(target \<Rightarrow> target list) \<Rightarrow> target list \<Rightarrow> bool" where
  "dependencies_first deps path \<longleftrightarrow>
     distinct path \<and> (\<forall>x \<in> set path. \<forall>d \<in> set (deps x). d \<in> set (takeWhile (\<lambda>y. y \<noteq> x) path))"

text \<open>The edges of the dependency graph: target to dependency.\<close>

definition dependency_edges :: "(target \<times> target list) list \<Rightarrow> (target \<times> target) set" where
  "dependency_edges deps = {(t, d). d \<in> set (dependencies_of deps t)}"

subsection \<open>Scheduling\<close>

text \<open>
  What one call of \<open>schedule\<close> does: the \<open>submit\<close> calls it issued, in order; the backend
  state it leaves; and what it returned, the list \<open>scheduled\<close> or the exception of a failed
  \<open>submit\<close>.
\<close>

record 's schedule_run =
  submit_calls :: "target list"
  end_state :: 's
  returned :: "error + target list"

text \<open>The \<open>for dependency in dfs(...)\<close> loop, with the list \<open>scheduled\<close> as an accumulator.\<close>

fun schedule_loop ::
  "'s backend_class \<Rightarrow> prepared_workflow \<Rightarrow> target list \<Rightarrow> 's \<Rightarrow> target list \<Rightarrow> target list
     \<Rightarrow> 's schedule_run" where
  "schedule_loop cls wfl [] s calls scheduled =
     \<lparr>submit_calls = calls, end_state = s, returned = Inr scheduled\<rparr>"
| "schedule_loop cls wfl (dependency # rest) s calls scheduled =
     (if submitted cls s dependency then schedule_loop cls wfl rest s calls scheduled
      else if \<not> should_run wfl dependency then schedule_loop cls wfl rest s calls scheduled
      else (case submit cls s dependency of
              Inl e \<Rightarrow> \<lparr>submit_calls = calls @ [dependency], end_state = s, returned = Inl e\<rparr>
            | Inr s' \<Rightarrow>
                schedule_loop cls wfl rest s' (calls @ [dependency]) (scheduled @ [dependency])))"

definition schedule :: "'s backend_class \<Rightarrow> prepared_workflow \<Rightarrow> 's \<Rightarrow> target \<Rightarrow> 's schedule_run" where
  "schedule cls wfl s t =
     (if submitted cls s t then \<lparr>submit_calls = [], end_state = s, returned = Inr []\<rparr>
      else schedule_loop cls wfl (dfs t (dependencies wfl)) s [] [])"

section \<open>An example workflow\<close>

definition sge_ops :: SGEOps where
  "sge_ops = \<lparr>ops_working_dir = ''/home/u/wf'', target_defaults = TARGET_DEFAULTS\<rparr>"

definition align_target :: target where
  "align_target = \<lparr>name = ''Align'', options = [(''cores'', IntV 4), (''memory'', StrV ''8g'')],
     working_dir = ''/home/u/wf'', spec = ''bwa mem ref.fa reads.fq''\<rparr>"

definition index_target :: target where
  "index_target = \<lparr>name = ''Index'', options = [(''memory'', StrV ''1g''), (''cores'', IntV 2)],
     working_dir = ''/home/u/wf'', spec = ''bwa index ref.fa''\<rparr>"


text \<open>A stand-in for the external commands: it answers with the command line it was given.\<close>

definition echo_call :: call_fn where
  "echo_call prog args inp = Inr (join '' '' (prog # args))"

definition job_list :: "string \<Rightarrow> string \<Rightarrow> element" where
  "job_list job_id state =
     Element ''job_list'' None
       [Element ''JB_job_number'' (Some job_id) [], Element ''JB_name'' (Some ''Align'') [],
        Element ''state'' (Some state) []]"

definition qstat_tree :: element where
  "qstat_tree =
     Element ''job_info'' None
       [Element ''queue_info'' None [job_list ''101'' ''r'', job_list ''104'' ''dr''],
        Element ''job_info'' None [job_list ''102'' ''qw'', job_list ''103'' ''Eqw'']]"

definition qstat_parse :: "string \<Rightarrow> error + element" where
  "qstat_parse xml = Inr qstat_tree"


definition report_target :: target where
  "report_target = \<lparr>name = ''Report'', options = [(''walltime'', StrV ''00:10:00''), (''gpu'', IntV 1)],
     working_dir = ''/home/u/wf'', spec = ''make report''\<rparr>"

text \<open>
  A backend whose state is the list of names of the targets it has submitted; its
  \<open>submit\<close> never fails.
\<close>

definition tracking_class :: "string list backend_class" where
  "tracking_class =
     \<lparr>backend_name = ''sge'',
      supported_options = Some [''cores'', ''memory'', ''walltime'', ''queue'', ''account''],
      submitted = (\<lambda>s t. name t \<in> set s),
      submit = (\<lambda>s t. Inr (s @ [name t]))\<rparr>"

text \<open>
  The same backend as a class that implements the abstract methods and inherits the
  property \<open>supported_options\<close> from the base class.
\<close>

definition inheriting_class :: "string list backend_class" where
  "inheriting_class =
     \<lparr>backend_name = ''sge'',
      supported_options = None,
      submitted = (\<lambda>s t. name t \<in> set s),
      submit = (\<lambda>s t. Inr (s @ [name t]))\<rparr>"

text \<open>Report needs Index and Align, Align needs Index; every target is stale.\<close>

definition example_workflow :: prepared_workflow where
  "example_workflow =
     \<lparr>targets = [(''Index'', index_target), (''Align'', align_target), (''Report'', report_target)],
      dependencies = [(align_target, [index_target]), (report_target, [index_target, align_target])],
      should_run = (\<lambda>t. True)\<rparr>"

text \<open>A rank on the example targets that falls along every dependency edge.\<close>

definition stage :: "target \<Rightarrow> nat" where
  "stage t = (if t = report_target then 2 else if t = align_target then 1 else 0)"

section \<open>Properties of the SGE backend\<close>

lemma option_lines_mem:
  "option_lines t items = Inr lines \<Longrightarrow> item \<in> set items \<Longrightarrow>
     \<exists>line. option_line t item = Inr line \<and> line \<in> set lines"
proof (induction items arbitrary: lines)
  case Nil
  then show ?case by simp
next
  case (Cons a items)
  then show ?case
    by (auto split: sum.splits)
qed

lemma compile_script_option_line:
  assumes "compile_script ops t = Inr script" and "item \<in> set (options t)"
  shows "\<exists>line before after. option_line t item = Inr line
           \<and> script = join [newline] (before @ [line] @ after)"
proof -
  from assms(1) obtain opts where o: "option_lines t (options t) = Inr opts"
    and script: "script = join [newline] (script_lines ops t opts)"
    by (auto simp: compile_script_def compile_lines_def split: sum.splits)
  from option_lines_mem [OF o assms(2)] obtain line where
    l: "option_line t item = Inr line" and "line \<in> set opts" by blast
  then have "line \<in> set (script_lines ops t opts)"
    by (simp add: script_lines_def)
  then obtain before after where "script_lines ops t opts = before @ [line] @ after"
    by (auto simp: in_set_conv_decomp)
  with l script show ?thesis by metis
qed

lemma memory_line:
  assumes "map_of (options t) ''cores'' = Some (IntV c)" and "c \<noteq> 0"
    and "filter is_digit m \<noteq> []"
  shows "option_line t (''memory'', StrV m) =
     Inr (''#$ -l h_vmem='' @ str_int (digits_value (filter is_digit m) div c) @ filter (\<lambda>x. \<not> is_digit x) m)"
  using assms
  by (simp add: option_line_def per_core_memory_def py_int_def OPTION_FLAGS_def option_str_def list_all_iff)

lemmas eval_defs = is_digit_def digits_value_def digit_val_def str_int_def str_nat.simps digit_char_def

text \<open>
  Claim C4. For a target whose options hold \<open>cores = 4\<close> and \<open>memory = "8g"\<close>, the script
  that \<open>compile_script\<close> returns is a newline-joined list of lines one of which is the
  per-core memory directive \<open>#$ -l h_vmem=2g\<close>: the total of 8 is divided by the 4 cores.
\<close>

theorem compile_script_memory_conversion:
  assumes "map_of (options t) ''cores'' = Some (IntV 4)"
    and "(''memory'', StrV ''8g'') \<in> set (options t)"
    and "compile_script ops t = Inr script"
  shows "\<exists>before after. script = join [newline] (before @ [''#$ -l h_vmem=2g''] @ after)"
proof -
  have "option_line t (''memory'', StrV ''8g'') = Inr ''#$ -l h_vmem=2g''"
    using memory_line [OF assms(1), of "''8g''"] by (simp add: eval_defs)
  with compile_script_option_line [OF assms(3) assms(2)] show ?thesis by auto
qed

text \<open>The example target with 4 cores and 8g compiles, and its directive lines are as expected.\<close>

lemma align_script:
  "compile_script sge_ops align_target =
     Inr (join [newline] (script_lines sge_ops align_target [''#$ -pe smp 4'', ''#$ -l h_vmem=2g'']))"
  by (simp add: compile_script_def compile_lines_def align_target_def option_line_def
      per_core_memory_def py_int_def OPTION_FLAGS_def option_str_def eval_defs)

theorem compile_script_memory_conversion_witness:
  "map_of (options align_target) ''cores'' = Some (IntV 4)
   \<and> (''memory'', StrV ''8g'') \<in> set (options align_target)
   \<and> (\<exists>script. compile_script sge_ops align_target = Inr script
        \<and> (\<exists>before after. script = join [newline] (before @ [''#$ -l h_vmem=2g''] @ after)))"
proof -
  have c: "map_of (options align_target) ''cores'' = Some (IntV 4)"
    and m: "(''memory'', StrV ''8g'') \<in> set (options align_target)"
    by (simp_all add: align_target_def)
  from compile_script_memory_conversion [OF c m align_script] c m align_script
  show ?thesis by simp
qed

text \<open>
  Claim C9. The per-core memory is the number formed by the digits of the \<open>memory\<close> option,
  floor-divided by the \<open>cores\<close> option; the remainder is dropped. The quotient is the floor
  of the exact ratio. With \<open>memory = "1g"\<close> and \<open>cores = 2\<close> the directive reads \<open>0g\<close>
  (the example after the theorem).
\<close>

theorem compile_script_memory_floor_division:
  assumes "map_of (options t) ''cores'' = Some (IntV c)" and "c \<noteq> 0"
    and "(''memory'', StrV m) \<in> set (options t)" and "filter is_digit m \<noteq> []"
    and "compile_script ops t = Inr script"
  shows "(\<exists>before after. script = join [newline]
            (before @ [''#$ -l h_vmem='' @ str_int (digits_value (filter is_digit m) div c)
                         @ filter (\<lambda>x. \<not> is_digit x) m] @ after))
         \<and> digits_value (filter is_digit m) div c
             = \<lfloor>real_of_int (digits_value (filter is_digit m)) / real_of_int c\<rfloor>"
proof -
  from compile_script_option_line [OF assms(5) assms(3)] memory_line [OF assms(1,2,4)]
  have "\<exists>before after. script = join [newline]
            (before @ [''#$ -l h_vmem='' @ str_int (digits_value (filter is_digit m) div c)
                         @ filter (\<lambda>x. \<not> is_digit x) m] @ after)"
    by auto
  then show ?thesis by (simp add: floor_divide_of_int_eq)
qed

text \<open>The example target with 2 cores and 1g compiles to a directive of \<open>0g\<close>.\<close>

lemma index_script:
  "compile_script sge_ops index_target =
     Inr (join [newline] (script_lines sge_ops index_target [''#$ -l h_vmem=0g'', ''#$ -pe smp 2'']))"
  by (simp add: compile_script_def compile_lines_def index_target_def option_line_def
      per_core_memory_def py_int_def OPTION_FLAGS_def option_str_def eval_defs)

theorem compile_script_memory_floor_division_witness:
  "map_of (options index_target) ''cores'' = Some (IntV 2) \<and> (2::int) \<noteq> 0
   \<and> (''memory'', StrV ''1g'') \<in> set (options index_target) \<and> filter is_digit ''1g'' \<noteq> []
   \<and> (\<exists>script. compile_script sge_ops index_target = Inr script
        \<and> (\<exists>before after. script = join [newline] (before @ [''#$ -l h_vmem=0g''] @ after)))
   \<and> \<lfloor>(1::real) / 2\<rfloor> = (0::int)"
proof -
  have c: "map_of (options index_target) ''cores'' = Some (IntV 2)"
    and m: "(''memory'', StrV ''1g'') \<in> set (options index_target)"
    and d: "filter is_digit ''1g'' \<noteq> []" and z: "(2::int) \<noteq> 0"
    by (simp_all add: index_target_def is_digit_def)
  from compile_script_memory_floor_division [OF c z m d index_script] c m d index_script
  show ?thesis by (simp add: eval_defs)
qed


text \<open>
  Claim C7. With a non-empty list of dependency handles, \<open>submit_target\<close> runs \<open>qsub\<close> with
  \<open>-hold_jid\<close> followed by the handles joined by commas; with an empty list the only argument
  is \<open>-terse\<close> and no hold directive is passed. The script goes to standard input.
\<close>

theorem submit_target_hold_directive:
  assumes "compile_script ops t = Inr script"
  shows "submit_target call ops t handles =
           call ''qsub''
             (if handles = [] then [''-terse'']
              else [''-terse'', ''-hold_jid'', join '','' handles])
             (Some script)"
  using assms by (simp add: submit_target_def submit_args_def)

theorem submit_target_hold_directive_witness:
  "compile_script sge_ops align_target =
     Inr (join [newline] (script_lines sge_ops align_target [''#$ -pe smp 4'', ''#$ -l h_vmem=2g'']))
   \<and> submit_target echo_call sge_ops align_target [''101'', ''102''] = Inr ''qsub -terse -hold_jid 101,102''
   \<and> submit_target echo_call sge_ops align_target [] = Inr ''qsub -terse''"
  using submit_target_hold_directive [OF align_script, of echo_call "[''101'', ''102'']"]
    submit_target_hold_directive [OF align_script, of echo_call "[]"] align_script
  by (simp add: echo_call_def)

subsection \<open>The status listing\<close>

text \<open>
  What the loop leaves in the dict: a job id keeps the state of the last \<open>job_list\<close> element
  that carries it, and a job id no element carries keeps its old entry.
\<close>

lemma job_states_loop_result:
  "job_states_loop jobs m = Inr m' \<Longrightarrow>
     (\<forall>job \<in> set jobs. job_id_of job \<noteq> None \<and> job_state_of job \<noteq> None)
     \<and> m' j = (if \<exists>job \<in> set jobs. job_id_of job = Some j
               then map_option guess_job_state
                      (job_state_of (last (filter (\<lambda>job. job_id_of job = Some j) jobs)))
               else m j)"
proof (induction jobs arbitrary: m)
  case Nil
  then show ?case by simp
next
  case (Cons job jobs)
  from Cons.prems obtain id_el state_el job_id state where
    f: "find_child ''JB_job_number'' job = Some id_el" "find_child ''state'' job = Some state_el"
      "el_text id_el = Some job_id" "el_text state_el = Some state"
    and rest: "job_states_loop jobs (m(job_id \<mapsto> guess_job_state state)) = Inr m'"
    by (auto split: option.splits)
  from f have ids: "job_id_of job = Some job_id" "job_state_of job = Some state"
    by (simp_all add: job_id_of_def job_state_of_def)
  note ih = Cons.IH [OF rest]
  show ?case
  proof (cases "\<exists>job \<in> set jobs. job_id_of job = Some j")
    case True
    then have "filter (\<lambda>job. job_id_of job = Some j) jobs \<noteq> []"
      by (auto simp: filter_empty_conv)
    with True ih ids show ?thesis by auto
  next
    case False
    then have "filter (\<lambda>job. job_id_of job = Some j) jobs = []"
      by (auto simp: filter_empty_conv)
    with False ih ids show ?thesis by auto
  qed
qed

lemma get_job_states_result:
  assumes "call ''qstat'' [''-f'', ''-xml''] None = Inr xml" and "fromstring xml = Inr tree"
    and "get_job_states call fromstring tracked_jobs = Inr job_states"
  shows "(\<forall>job \<in> set (iter ''job_list'' tree). job_id_of job \<noteq> None \<and> job_state_of job \<noteq> None)
     \<and> job_states j = (if \<exists>job \<in> set (iter ''job_list'' tree). job_id_of job = Some j
               then map_option guess_job_state
                      (job_state_of (last (filter (\<lambda>job. job_id_of job = Some j) (iter ''job_list'' tree))))
               else None)"
proof -
  from assms have "job_states_loop (iter ''job_list'' tree) Map.empty = Inr job_states"
    by (simp add: get_job_states_def)
  from job_states_loop_result [OF this, of j] show ?thesis by simp
qed

text \<open>
  Claim C6. When \<open>get_job_states\<close> returns, a job id that the listing carries is mapped to
  exactly one status, read from the state code of its (last) \<open>job_list\<close> element: \<open>UNKNOWN\<close>
  when the code contains \<open>d\<close> or \<open>E\<close>, otherwise \<open>RUNNING\<close> when it contains \<open>r\<close>, \<open>t\<close> or
  \<open>s\<close>, otherwise \<open>SUBMITTED\<close>. A job id that the listing does not carry has no entry.
\<close>

theorem get_job_states_classification:
  assumes "call ''qstat'' [''-f'', ''-xml''] None = Inr xml" and "fromstring xml = Inr tree"
    and "get_job_states call fromstring tracked_jobs = Inr job_states"
  shows "if \<exists>job \<in> set (iter ''job_list'' tree). job_id_of job = Some job_id
         then \<exists>state. job_state_of (last (filter (\<lambda>job. job_id_of job = Some job_id)
                                             (iter ''job_list'' tree))) = Some state
                \<and> job_states job_id =
                    Some (if CHR ''d'' \<in> set state \<or> CHR ''E'' \<in> set state then UNKNOWN
                          else if CHR ''r'' \<in> set state \<or> CHR ''t'' \<in> set state \<or> CHR ''s'' \<in> set state
                          then RUNNING else SUBMITTED)
         else job_states job_id = None"
proof (cases "\<exists>job \<in> set (iter ''job_list'' tree). job_id_of job = Some job_id")
  case True
  let ?js = "filter (\<lambda>job. job_id_of job = Some job_id) (iter ''job_list'' tree)"
  from True have "?js \<noteq> []" by (auto simp: filter_empty_conv)
  then have "last ?js \<in> set ?js" by (rule last_in_set)
  then have "last ?js \<in> set (iter ''job_list'' tree)" by simp
  with get_job_states_result [OF assms, of job_id]
  obtain state where "job_state_of (last ?js) = Some state" by auto
  with get_job_states_result [OF assms, of job_id] True show ?thesis
    by (simp add: guess_job_state_def)
next
  case False
  with get_job_states_result [OF assms, of job_id] show ?thesis by simp
qed

text \<open>The example listing: four jobs, in document order.\<close>

lemma qstat_jobs:
  "iter ''job_list'' qstat_tree =
     [job_list ''101'' ''r'', job_list ''104'' ''dr'', job_list ''102'' ''qw'', job_list ''103'' ''Eqw'']"
  by (simp add: qstat_tree_def job_list_def)

lemma job_list_fields [simp]:
  "job_id_of (job_list i s) = Some i" "job_state_of (job_list i s) = Some s"
  by (simp_all add: job_id_of_def job_state_of_def job_list_def find_child_def)

lemma qstat_states:
  "\<exists>job_states. get_job_states echo_call qstat_parse tracked = Inr job_states"
  by (simp add: get_job_states_def echo_call_def qstat_parse_def qstat_jobs job_list_def find_child_def)

theorem get_job_states_classification_witness:
  "\<exists>job_states. get_job_states echo_call qstat_parse [''101''] = Inr job_states
     \<and> job_states ''101'' = Some RUNNING \<and> job_states ''102'' = Some SUBMITTED
     \<and> job_states ''103'' = Some UNKNOWN \<and> job_states ''104'' = Some UNKNOWN
     \<and> job_states ''105'' = None"
proof -
  from qstat_states obtain js where js: "get_job_states echo_call qstat_parse [''101''] = Inr js"
    by blast
  have c: "echo_call ''qstat'' [''-f'', ''-xml''] None = Inr ''qstat -f -xml''"
    and p: "qstat_parse ''qstat -f -xml'' = Inr qstat_tree"
    by (simp_all add: echo_call_def qstat_parse_def)
  note r = get_job_states_classification [OF c p js]
  from r [of "''101''"] r [of "''102''"] r [of "''103''"] r [of "''104''"] r [of "''105''"] js
  show ?thesis by (simp add: qstat_jobs)
qed

text \<open>
  Claim C10. The result of \<open>get_job_states\<close> is the same for any two values of
  \<open>tracked_jobs\<close>, and its domain holds the job id of every \<open>job_list\<close> element of the
  listing, tracked or not.
\<close>

theorem get_job_states_ignores_tracked_jobs:
  assumes "call ''qstat'' [''-f'', ''-xml''] None = Inr xml" and "fromstring xml = Inr tree"
    and "get_job_states call fromstring tracked_jobs = Inr job_states"
  shows "get_job_states call fromstring other_tracked_jobs = Inr job_states
         \<and> (\<forall>job \<in> set (iter ''job_list'' tree). \<exists>job_id. job_id_of job = Some job_id \<and> job_id \<in> dom job_states)"
proof -
  have "get_job_states call fromstring other_tracked_jobs = get_job_states call fromstring tracked_jobs"
    by (simp add: get_job_states_def)
  moreover have "\<exists>job_id. job_id_of job = Some job_id \<and> job_id \<in> dom job_states"
    if "job \<in> set (iter ''job_list'' tree)" for job
  proof -
    from get_job_states_result [OF assms] that obtain job_id where i: "job_id_of job = Some job_id"
      by auto
    let ?js = "filter (\<lambda>job. job_id_of job = Some job_id) (iter ''job_list'' tree)"
    from that i have "?js \<noteq> []" by (auto simp: filter_empty_conv)
    then have "last ?js \<in> set ?js" by (rule last_in_set)
    then have "last ?js \<in> set (iter ''job_list'' tree)" by simp
    with get_job_states_result [OF assms, of job_id] that i have "job_states job_id \<noteq> None"
      by auto
    with i show ?thesis by auto
  qed
  ultimately show ?thesis using assms(3) by simp
qed

theorem get_job_states_ignores_tracked_jobs_witness:
  "\<exists>job_states. get_job_states echo_call qstat_parse [''101''] = Inr job_states
     \<and> get_job_states echo_call qstat_parse [] = Inr job_states
     \<and> ''103'' \<in> dom job_states"
proof -
  from qstat_states obtain js where js: "get_job_states echo_call qstat_parse [''101''] = Inr js"
    by blast
  have c: "echo_call ''qstat'' [''-f'', ''-xml''] None = Inr ''qstat -f -xml''"
    and p: "qstat_parse ''qstat -f -xml'' = Inr qstat_tree"
    by (simp_all add: echo_call_def qstat_parse_def)
  from get_job_states_ignores_tracked_jobs [OF c p js, of "[]"] js
  show ?thesis by (auto simp: qstat_jobs)
qed


section \<open>Properties of the backend base class\<close>

subsection \<open>The example workflow\<close>

lemma targets_distinct [simp]:
  "index_target \<noteq> align_target" "align_target \<noteq> index_target"
  "index_target \<noteq> report_target" "report_target \<noteq> index_target"
  "align_target \<noteq> report_target" "report_target \<noteq> align_target"
  by (simp_all add: index_target_def align_target_def report_target_def)

lemma target_names [simp]:
  "name index_target = ''Index''" "name align_target = ''Align''" "name report_target = ''Report''"
  by (simp_all add: index_target_def align_target_def report_target_def)

lemma example_dfs:
  "dfs report_target (dependencies example_workflow) = [index_target, align_target, report_target]"
  by (simp add: dfs_def dfs_bound_def graph_nodes_def example_workflow_def dependencies_of_def
      eval_nat_numeral)

lemma example_schedule:
  "schedule tracking_class example_workflow [] report_target =
     \<lparr>submit_calls = [index_target, align_target, report_target],
      end_state = [''Index'', ''Align'', ''Report''],
      returned = Inr [index_target, align_target, report_target]\<rparr>"
  by (simp add: schedule_def example_dfs) (simp add: tracking_class_def example_workflow_def)

subsection \<open>Construction\<close>

text \<open>
  A class that declares its supported options is constructed without an exception,
  whatever option keys the targets carry: the constructor returns the bound workflow and
  logs one warning for each option key that is not supported.
\<close>

lemma Backend_init_with_supported_options:
  assumes "supported_options cls = Some supported"
  shows "Backend_init cls (PreparedWorkflow wfl) =
           Inr (wfl, unsupported_warning (backend_name cls) ` (all_options wfl - set supported))
         \<and> (\<forall>(n, t) \<in> set (targets wfl). \<forall>(option_name, v) \<in> set (options t).
               option_name \<notin> set supported \<longrightarrow>
                 unsupported_warning (backend_name cls) option_name
                   \<in> unsupported_warning (backend_name cls) ` (all_options wfl - set supported))"
proof -
  have "{option_name \<in> all_options wfl. option_name \<notin> set supported} = all_options wfl - set supported"
    by auto
  with assms have "Backend_init cls (PreparedWorkflow wfl) =
           Inr (wfl, unsupported_warning (backend_name cls) ` (all_options wfl - set supported))"
    by (simp add: Backend_init_def)
  moreover have "\<forall>(n, t) \<in> set (targets wfl). \<forall>(option_name, v) \<in> set (options t).
               option_name \<notin> set supported \<longrightarrow> option_name \<in> all_options wfl - set supported"
    by (force simp: all_options_def)
  then have "\<forall>(n, t) \<in> set (targets wfl). \<forall>(option_name, v) \<in> set (options t).
               option_name \<notin> set supported \<longrightarrow>
                 unsupported_warning (backend_name cls) option_name
                   \<in> unsupported_warning (backend_name cls) ` (all_options wfl - set supported)"
    by blast
  ultimately show ?thesis by simp
qed

lemma example_all_options:
  "all_options example_workflow = {''memory'', ''cores'', ''walltime'', ''gpu''}"
  by (auto simp: all_options_def example_workflow_def index_target_def align_target_def
      report_target_def)

text \<open>On the example, the declaring class gets one warning, for the key \<open>gpu\<close>.\<close>

lemma example_construction:
  "Backend_init tracking_class (PreparedWorkflow example_workflow) =
     Inr (example_workflow, {''Backend '' @ [dquote] @ ''sge'' @ [dquote] @ '' does not support option ''
                                @ [dquote] @ ''gpu'' @ [dquote] @ ''.''})"
proof -
  have s: "supported_options tracking_class = Some [''cores'', ''memory'', ''walltime'', ''queue'', ''account'']"
    by (simp add: tracking_class_def)
  from Backend_init_with_supported_options [OF s, of example_workflow] example_all_options
  show ?thesis
    by (simp add: unsupported_warning_def tracking_class_def)
qed

text \<open>
  The property \<open>supported_options\<close> of the base class has a docstring and no \<open>return\<close>, so
  it yields \<open>None\<close>, unlike its sibling \<open>option_defaults\<close>, which returns an empty dict. A
  class that inherits it cannot be constructed over a workflow whose targets carry any
  option: the membership test of the first loop iteration raises \<open>TypeError\<close>.
\<close>

lemma Backend_init_without_supported_options:
  assumes "supported_options cls = None" and "all_options wfl \<noteq> {}"
  shows "Backend_init cls (PreparedWorkflow wfl) = Inl TypeError"
  using assms by (simp add: Backend_init_def)

text \<open>
  Claim C5. Constructing a backend over a workflow in which a target carries an option key
  that the backend does not support should raise nothing and log a warning. For a class
  that inherits \<open>supported_options\<close> from the base class the constructor raises instead:
  the example target Report carries the key \<open>gpu\<close>, the inherited property is \<open>None\<close>, and
  the constructor ends in \<open>TypeError\<close> with no warning logged.
\<close>

theorem Backend_init_inherited_supported_options_raises:
  "(''Report'', report_target) \<in> set (targets example_workflow)
   \<and> (''gpu'', IntV 1) \<in> set (options report_target)
   \<and> supported_options inheriting_class = None
   \<and> Backend_init inheriting_class (PreparedWorkflow example_workflow) = Inl TypeError"
proof -
  have n: "supported_options inheriting_class = None"
    by (simp add: inheriting_class_def)
  have "all_options example_workflow \<noteq> {}"
    by (simp add: example_all_options)
  from Backend_init_without_supported_options [OF n this] n show ?thesis
    by (simp add: example_workflow_def report_target_def)
qed

subsection \<open>The scheduling loop\<close>

text \<open>A walk over targets that are all submitted or up to date submits nothing.\<close>

lemma schedule_loop_skip_all:
  "\<forall>d \<in> set ds. submitted cls s d \<or> \<not> should_run wfl d \<Longrightarrow>
     schedule_loop cls wfl ds s calls scheduled =
       \<lparr>submit_calls = calls, end_state = s, returned = Inr scheduled\<rparr>"
  by (induction ds) auto

lemma schedule_loop_end_state:
  assumes registers: "\<forall>s t s'. submit cls s t = Inr s' \<longrightarrow> submitted cls s' t"
    and keeps: "\<forall>s t s' u. submit cls s t = Inr s' \<longrightarrow> submitted cls s u \<longrightarrow> submitted cls s' u"
  shows "returned (schedule_loop cls wfl ds s calls scheduled) = Inr l \<Longrightarrow>
     (\<forall>d \<in> set ds. submitted cls (end_state (schedule_loop cls wfl ds s calls scheduled)) d
                     \<or> \<not> should_run wfl d)
     \<and> (\<forall>u. submitted cls s u \<longrightarrow>
              submitted cls (end_state (schedule_loop cls wfl ds s calls scheduled)) u)"
proof (induction ds arbitrary: s calls scheduled)
  case Nil
  then show ?case by simp
next
  case (Cons d ds)
  show ?case
  proof (cases "submitted cls s d \<or> \<not> should_run wfl d")
    case True
    then have same: "schedule_loop cls wfl (d # ds) s calls scheduled
                       = schedule_loop cls wfl ds s calls scheduled"
      by auto
    with Cons.prems have "returned (schedule_loop cls wfl ds s calls scheduled) = Inr l"
      by simp
    from Cons.IH [OF this] True show ?thesis unfolding same by auto
  next
    case False
    with Cons.prems obtain s' where s': "submit cls s d = Inr s'"
      by (cases "submit cls s d") auto
    with False have step: "schedule_loop cls wfl (d # ds) s calls scheduled
                       = schedule_loop cls wfl ds s' (calls @ [d]) (scheduled @ [d])"
      by simp
    with Cons.prems
    have "returned (schedule_loop cls wfl ds s' (calls @ [d]) (scheduled @ [d])) = Inr l"
      by simp
    from Cons.IH [OF this]
    have rest: "\<forall>x \<in> set ds. submitted cls (end_state (schedule_loop cls wfl ds s' (calls @ [d]) (scheduled @ [d]))) x
                     \<or> \<not> should_run wfl x"
      and mono: "\<forall>u. submitted cls s' u \<longrightarrow>
              submitted cls (end_state (schedule_loop cls wfl ds s' (calls @ [d]) (scheduled @ [d]))) u"
      by blast+
    from registers s' have "submitted cls s' d" by blast
    with mono have here: "submitted cls (end_state (schedule_loop cls wfl ds s' (calls @ [d]) (scheduled @ [d]))) d"
      by blast
    from keeps s' have "\<forall>u. submitted cls s u \<longrightarrow> submitted cls s' u" by blast
    with mono have "\<forall>u. submitted cls s u \<longrightarrow>
              submitted cls (end_state (schedule_loop cls wfl ds s' (calls @ [d]) (scheduled @ [d]))) u"
      by blast
    with rest here show ?thesis unfolding step by simp
  qed
qed

lemma schedule_loop_not_should_run:
  "\<not> should_run wfl d \<Longrightarrow> d \<notin> set calls \<Longrightarrow> d \<notin> set scheduled \<Longrightarrow>
     d \<notin> set (submit_calls (schedule_loop cls wfl ds s calls scheduled))
     \<and> (\<forall>l. returned (schedule_loop cls wfl ds s calls scheduled) = Inr l \<longrightarrow> d \<notin> set l)"
proof (induction ds arbitrary: s calls scheduled)
  case Nil
  then show ?case by simp
next
  case (Cons x ds)
  show ?case
  proof (cases "submitted cls s x \<or> \<not> should_run wfl x")
    case True
    then have "schedule_loop cls wfl (x # ds) s calls scheduled
                 = schedule_loop cls wfl ds s calls scheduled"
      by auto
    with Cons.IH [OF Cons.prems] show ?thesis by simp
  next
    case False
    with Cons.prems have neq: "d \<noteq> x" by auto
    show ?thesis
    proof (cases "submit cls s x")
      case (Inl e)
      with False Cons.prems neq show ?thesis by simp
    next
      case (Inr s')
      with False have step: "schedule_loop cls wfl (x # ds) s calls scheduled
                 = schedule_loop cls wfl ds s' (calls @ [x]) (scheduled @ [x])"
        by simp
      from Cons.prems neq have "d \<notin> set (calls @ [x])" "d \<notin> set (scheduled @ [x])"
        by simp_all
      from Cons.IH [OF Cons.prems(1) this] show ?thesis unfolding step .
    qed
  qed
qed

lemma schedule_loop_calls:
  "\<exists>new. submit_calls (schedule_loop cls wfl ds s calls scheduled) = calls @ new \<and> subseq new ds"
proof (induction ds arbitrary: s calls scheduled)
  case Nil
  then show ?case by simp
next
  case (Cons d ds)
  show ?case
  proof (cases "submitted cls s d \<or> \<not> should_run wfl d")
    case True
    with Cons.IH [of s calls scheduled] show ?thesis by auto
  next
    case False
    show ?thesis
    proof (cases "submit cls s d")
      case (Inl e)
      with False show ?thesis by auto
    next
      case (Inr s')
      from Cons.IH [of s' "calls @ [d]" "scheduled @ [d]"] obtain new where
        "submit_calls (schedule_loop cls wfl ds s' (calls @ [d]) (scheduled @ [d])) = (calls @ [d]) @ new"
        "subseq new ds" by blast
      with False Inr show ?thesis by (intro exI [of _ "d # new"]) simp
    qed
  qed
qed

lemma schedule_loop_returned:
  "returned (schedule_loop cls wfl ds s calls scheduled) = Inr l \<Longrightarrow> calls = scheduled \<Longrightarrow>
     submit_calls (schedule_loop cls wfl ds s calls scheduled) = l"
  by (induction ds arbitrary: s calls scheduled) (auto split: sum.splits if_splits)

subsection \<open>Scheduling\<close>

text \<open>
  Claim C8. When the requested target is already submitted, \<open>schedule\<close> returns the empty
  list at once: no \<open>submit\<close> call is issued and the state is untouched, so no dependency
  is submitted, not even one that is unsubmitted and stale (the example after the theorem has one).
\<close>

theorem schedule_submitted_root_returns_at_once:
  "submitted cls s t \<Longrightarrow>
     schedule cls wfl s t = \<lparr>submit_calls = [], end_state = s, returned = Inr []\<rparr>"
  by (simp add: schedule_def)

theorem schedule_submitted_root_returns_at_once_witness:
  "submitted tracking_class [''Report''] report_target
   \<and> index_target \<in> set (dependencies_of (dependencies example_workflow) report_target)
   \<and> \<not> submitted tracking_class [''Report''] index_target
   \<and> should_run example_workflow index_target
   \<and> schedule tracking_class example_workflow [''Report''] report_target =
        \<lparr>submit_calls = [], end_state = [''Report''], returned = Inr []\<rparr>"
proof -
  have s: "submitted tracking_class [''Report''] report_target"
    by (simp add: tracking_class_def)
  from schedule_submitted_root_returns_at_once [OF s, of example_workflow] s show ?thesis
    by (simp add: tracking_class_def example_workflow_def dependencies_of_def)
qed

text \<open>
  Claim C3. A target that the \<open>should_run\<close> oracle reports up to date is never handed to
  \<open>submit\<close> by \<open>schedule\<close> and is not in the returned list, whether or not it was
  submitted before.
\<close>

theorem schedule_skips_up_to_date:
  assumes "\<not> should_run wfl d"
  shows "d \<notin> set (submit_calls (schedule cls wfl s t))
         \<and> (\<forall>l. returned (schedule cls wfl s t) = Inr l \<longrightarrow> d \<notin> set l)"
proof (cases "submitted cls s t")
  case True
  then show ?thesis by (simp add: schedule_def)
next
  case False
  have "d \<notin> set ([] :: target list)" by simp
  from schedule_loop_not_should_run [OF assms this this] False show ?thesis
    by (simp add: schedule_def)
qed

theorem schedule_skips_up_to_date_witness:
  "\<not> should_run (example_workflow\<lparr>should_run := \<lambda>t. name t \<noteq> ''Index''\<rparr>) index_target
   \<and> \<not> submitted tracking_class [] index_target
   \<and> schedule tracking_class (example_workflow\<lparr>should_run := \<lambda>t. name t \<noteq> ''Index''\<rparr>) [] report_target =
        \<lparr>submit_calls = [align_target, report_target],
         end_state = [''Align'', ''Report''],
         returned = Inr [align_target, report_target]\<rparr>
   \<and> index_target \<notin> set [align_target, report_target]"
proof -
  let ?w = "example_workflow\<lparr>should_run := \<lambda>t. name t \<noteq> ''Index''\<rparr>"
  have n: "\<not> should_run ?w index_target" by simp
  have d: "dfs report_target (dependencies ?w) = [index_target, align_target, report_target]"
    using example_dfs by simp
  have r: "schedule tracking_class ?w [] report_target =
        \<lparr>submit_calls = [align_target, report_target],
         end_state = [''Align'', ''Report''],
         returned = Inr [align_target, report_target]\<rparr>"
    by (simp add: schedule_def example_dfs) (simp add: tracking_class_def)
  from schedule_skips_up_to_date [OF n, of tracking_class "[]" report_target] n r
  show ?thesis by (simp add: tracking_class_def)
qed

text \<open>
  Claim C1. Let \<open>submit\<close> register the target it accepts and leave the other targets
  submitted, and let a first call of \<open>schedule\<close> return normally. Then a second call for
  the same target, from the state the first call left and with the same workflow, issues
  no \<open>submit\<close> call, leaves the state as it is and returns the empty list.
\<close>

theorem schedule_idempotent:
  assumes registers: "\<forall>s t s'. submit cls s t = Inr s' \<longrightarrow> submitted cls s' t"
    and keeps: "\<forall>s t s' u. submit cls s t = Inr s' \<longrightarrow> submitted cls s u \<longrightarrow> submitted cls s' u"
    and first: "returned (schedule cls wfl s t) = Inr scheduled"
  shows "schedule cls wfl (end_state (schedule cls wfl s t)) t =
           \<lparr>submit_calls = [], end_state = end_state (schedule cls wfl s t), returned = Inr []\<rparr>"
proof (cases "submitted cls s t")
  case True
  then show ?thesis by (simp add: schedule_def)
next
  case False
  let ?path = "dfs t (dependencies wfl)"
  let ?run = "schedule_loop cls wfl ?path s [] []"
  from False have run: "schedule cls wfl s t = ?run" by (simp add: schedule_def)
  with first have "returned ?run = Inr scheduled" by simp
  from schedule_loop_end_state [OF registers keeps this]
  have "\<forall>d \<in> set ?path. submitted cls (end_state ?run) d \<or> \<not> should_run wfl d"
    by blast
  from schedule_loop_skip_all [OF this]
  have "schedule_loop cls wfl ?path (end_state ?run) [] [] =
          \<lparr>submit_calls = [], end_state = end_state ?run, returned = Inr []\<rparr>" .
  then show ?thesis by (simp add: run schedule_def)
qed

theorem schedule_idempotent_witness:
  "\<not> (\<exists>s t s'. submit tracking_class s t = Inr s' \<and> \<not> submitted tracking_class s' t)
   \<and> \<not> (\<exists>s t s' u. submit tracking_class s t = Inr s' \<and> submitted tracking_class s u
               \<and> \<not> submitted tracking_class s' u)
   \<and> returned (schedule tracking_class example_workflow [] report_target)
        = Inr [index_target, align_target, report_target]
   \<and> end_state (schedule tracking_class example_workflow [] report_target)
        = [''Index'', ''Align'', ''Report'']
   \<and> schedule tracking_class example_workflow [''Index'', ''Align'', ''Report''] report_target =
        \<lparr>submit_calls = [], end_state = [''Index'', ''Align'', ''Report''], returned = Inr []\<rparr>"
proof -
  have r: "\<forall>s t s'. submit tracking_class s t = Inr s' \<longrightarrow> submitted tracking_class s' t"
    and k: "\<forall>s t s' u. submit tracking_class s t = Inr s' \<longrightarrow> submitted tracking_class s u
              \<longrightarrow> submitted tracking_class s' u"
    by (auto simp: tracking_class_def)
  have f: "returned (schedule tracking_class example_workflow [] report_target)
             = Inr [index_target, align_target, report_target]"
    by (simp add: example_schedule)
  from r have r': "\<not> (\<exists>s t s'. submit tracking_class s t = Inr s' \<and> \<not> submitted tracking_class s' t)"
    by blast
  from k have k': "\<not> (\<exists>s t s' u. submit tracking_class s t = Inr s' \<and> submitted tracking_class s u
               \<and> \<not> submitted tracking_class s' u)"
    by blast
  from schedule_idempotent [OF r k f]
  have "schedule tracking_class example_workflow [''Index'', ''Align'', ''Report''] report_target =
        \<lparr>submit_calls = [], end_state = [''Index'', ''Align'', ''Report''], returned = Inr []\<rparr>"
    by (simp add: example_schedule)
  with r' k' f show ?thesis by (simp only: example_schedule simp_thms schedule_run.simps)
qed


subsection \<open>Depth-first traversal and the order of submissions\<close>

text \<open>Appending a target whose dependencies are all on the path keeps dependencies first.\<close>

lemma dependencies_first_snoc:
  assumes "dependencies_first deps p" and "n \<notin> set p" and "set (deps n) \<subseteq> set p"
  shows "dependencies_first deps (p @ [n])"
proof -
  have "d \<in> set (takeWhile (\<lambda>y. y \<noteq> x) (p @ [n]))"
    if x: "x \<in> set (p @ [n])" and d: "d \<in> set (deps x)" for x d
  proof (cases "x = n")
    case True
    from assms(2) have "takeWhile (\<lambda>y. y \<noteq> n) (p @ [n]) = p @ takeWhile (\<lambda>y. y \<noteq> n) [n]"
      by (intro takeWhile_append2) auto
    with True d assms(3) show ?thesis by auto
  next
    case False
    with x have xp: "x \<in> set p" by simp
    then have "takeWhile (\<lambda>y. y \<noteq> x) (p @ [n]) = takeWhile (\<lambda>y. y \<noteq> x) p"
      by (intro takeWhile_append1) auto
    with assms(1) xp d show ?thesis by (simp add: dependencies_first_def)
  qed
  with assms(1,2) show ?thesis by (simp add: dependencies_first_def)
qed

text \<open>
  The invariant of the traversal on an acyclic graph. The visited targets that are not yet
  on the path are the ones the recursion is still inside; each of them reaches the target
  visited next, so that target cannot be one of them. The path keeps dependencies first
  and ends up holding the target visited.
\<close>

lemma dfs_invariant:
  fixes deps :: "target \<Rightarrow> target list"
  assumes ac: "acyclic {(x, d). d \<in> set (deps x)}"
  shows "dfs_inner k deps n st = Some st' \<Longrightarrow> set (snd st) \<subseteq> fst st \<Longrightarrow>
           dependencies_first deps (snd st) \<Longrightarrow>
           (\<forall>g \<in> fst st - set (snd st). (g, n) \<in> {(x, d). d \<in> set (deps x)}\<^sup>+) \<Longrightarrow>
           set (snd st') \<subseteq> fst st' \<and> dependencies_first deps (snd st')
           \<and> fst st' - set (snd st') = fst st - set (snd st)
           \<and> set (snd st) \<subseteq> set (snd st') \<and> n \<in> set (snd st')"
    and "dfs_each k deps ds st = Some st' \<Longrightarrow> set (snd st) \<subseteq> fst st \<Longrightarrow>
           dependencies_first deps (snd st) \<Longrightarrow>
           (\<forall>g \<in> fst st - set (snd st). \<forall>d \<in> set ds. (g, d) \<in> {(x, d). d \<in> set (deps x)}\<^sup>+) \<Longrightarrow>
           set (snd st') \<subseteq> fst st' \<and> dependencies_first deps (snd st')
           \<and> fst st' - set (snd st') = fst st - set (snd st)
           \<and> set (snd st) \<subseteq> set (snd st') \<and> set ds \<subseteq> set (snd st')"
  using ac
proof (induction k deps n st and k deps ds st arbitrary: st' and st'
    rule: dfs_inner_dfs_each.induct)
  case (1 deps node st)
  then show ?case by simp
next
  case (2 k deps node st)
  let ?E = "{(x, d). d \<in> set (deps x)}"
  show ?case
  proof (cases "node \<in> fst st")
    case True
    with "2.prems"(1) have eq: "st' = st" by simp
    have "node \<in> set (snd st)"
    proof (rule ccontr)
      assume "node \<notin> set (snd st)"
      with True "2.prems"(4) have "(node, node) \<in> ?E\<^sup>+" by blast
      with "2.prems"(5) show False by (auto simp: acyclic_def)
    qed
    with "2.prems" eq show ?thesis by simp
  next
    case False
    with "2.prems"(1) obtain st1 where
      each: "dfs_each k deps (deps node) (insert node (fst st), snd st) = Some st1"
      and st': "st' = (fst st1, snd st1 @ [node])"
      by (auto split: option.splits)
    from False "2.prems"(2) have notin: "node \<notin> set (snd st)" by auto
    have gray: "\<forall>g \<in> fst (insert node (fst st), snd st) - set (snd (insert node (fst st), snd st)).
                  \<forall>d \<in> set (deps node). (g, d) \<in> ?E\<^sup>+"
    proof (intro ballI)
      fix g d
      assume g: "g \<in> fst (insert node (fst st), snd st) - set (snd (insert node (fst st), snd st))"
        and d: "d \<in> set (deps node)"
      from d have edge: "(node, d) \<in> ?E" by simp
      show "(g, d) \<in> ?E\<^sup>+"
      proof (cases "g = node")
        case True
        with edge show ?thesis by auto
      next
        case False
        with g "2.prems"(4) have "(g, node) \<in> ?E\<^sup>+" by auto
        from this edge show ?thesis by (rule trancl_into_trancl)
      qed
    qed
    from "2.prems"(2) have sub: "set (snd (insert node (fst st), snd st)) \<subseteq> fst (insert node (fst st), snd st)"
      by auto
    from "2.prems"(3) have df: "dependencies_first deps (snd (insert node (fst st), snd st))"
      by simp
    from "2.IH" [OF False each sub df gray "2.prems"(5)]
    have a: "set (snd st1) \<subseteq> fst st1" and b: "dependencies_first deps (snd st1)"
      and c: "fst st1 - set (snd st1) = insert node (fst st) - set (snd st)"
      and d: "set (snd st) \<subseteq> set (snd st1)" and e: "set (deps node) \<subseteq> set (snd st1)"
      by simp_all
    from c notin have n1: "node \<in> fst st1" "node \<notin> set (snd st1)" by auto
    from dependencies_first_snoc [OF b n1(2) e]
    have "dependencies_first deps (snd st1 @ [node])" .
    moreover from c n1 False have "fst st1 - set (snd st1 @ [node]) = fst st - set (snd st)"
      by auto
    ultimately show ?thesis using a d n1 by (auto simp: st')
  qed
next
  case (3 k deps st)
  then show ?case by simp
next
  case (4 k deps d ds st)
  let ?E = "{(x, d). d \<in> set (deps x)}"
  from "4.prems"(1) obtain st1 where
    inner: "dfs_inner k deps d st = Some st1" and each: "dfs_each k deps ds st1 = Some st'"
    by (auto split: option.splits)
  from "4.prems"(4) have g1: "\<forall>g \<in> fst st - set (snd st). (g, d) \<in> ?E\<^sup>+" by simp
  from "4.IH"(1) [OF inner "4.prems"(2,3) g1 "4.prems"(5)]
  have a: "set (snd st1) \<subseteq> fst st1" and b: "dependencies_first deps (snd st1)"
    and c: "fst st1 - set (snd st1) = fst st - set (snd st)"
    and e: "set (snd st) \<subseteq> set (snd st1)" and f: "d \<in> set (snd st1)"
    by simp_all
  from "4.prems"(4) c have g2: "\<forall>g \<in> fst st1 - set (snd st1). \<forall>x \<in> set ds. (g, x) \<in> ?E\<^sup>+"
    by simp
  from "4.IH"(2) [OF inner each a b g2 "4.prems"(5)] c e f show ?case by auto
qed

text \<open>
  The traversal returns: within a finite set of targets closed under dependencies, a bound
  above the number of unvisited targets is never reached.
\<close>

lemma dfs_fuel:
  fixes deps :: "target \<Rightarrow> target list"
  assumes fin: "finite U" and closed: "\<forall>x \<in> U. set (deps x) \<subseteq> U"
  shows "n \<in> U \<Longrightarrow> card (U - fst st) < k \<Longrightarrow>
           \<exists>st'. dfs_inner k deps n st = Some st' \<and> fst st \<subseteq> fst st'"
    and "set ds \<subseteq> U \<Longrightarrow> card (U - fst st) < k \<or> ds = [] \<Longrightarrow>
           \<exists>st'. dfs_each k deps ds st = Some st' \<and> fst st \<subseteq> fst st'"
  using fin closed
proof (induction k deps n st and k deps ds st rule: dfs_inner_dfs_each.induct)
  case (1 deps node st)
  then show ?case by simp
next
  case (2 k deps node st)
  show ?case
  proof (cases "node \<in> fst st")
    case True
    then show ?thesis by simp
  next
    case False
    with "2.prems"(1) have mem: "node \<in> U - fst st" by simp
    have "U - insert node (fst st) = (U - fst st) - {node}" by auto
    with mem "2.prems"(3) have "card (U - insert node (fst st)) = card (U - fst st) - 1"
      by (simp add: card_Diff_singleton)
    moreover from mem "2.prems"(3) have "0 < card (U - fst st)"
      by (auto simp: card_gt_0_iff)
    ultimately have less: "card (U - fst (insert node (fst st), snd st)) < k"
      using "2.prems"(2) by simp
    from "2.prems"(1,4) have sub: "set (deps node) \<subseteq> U" by blast
    from "2.IH" [OF False sub disjI1 [OF less] "2.prems"(3,4)]
    obtain st1 where "dfs_each k deps (deps node) (insert node (fst st), snd st) = Some st1"
      "insert node (fst st) \<subseteq> fst st1" by auto
    with False show ?thesis by auto
  qed
next
  case (3 k deps st)
  then show ?case by simp
next
  case (4 k deps d ds st)
  from "4.prems"(2) have less: "card (U - fst st) < k" by simp
  from "4.prems"(1) have d: "d \<in> U" and ds: "set ds \<subseteq> U" by simp_all
  from "4.IH"(1) [OF d less "4.prems"(3,4)] obtain st1 where
    inner: "dfs_inner k deps d st = Some st1" and mono: "fst st \<subseteq> fst st1" by blast
  from mono have "U - fst st1 \<subseteq> U - fst st" by auto
  with "4.prems"(3) have "card (U - fst st1) \<le> card (U - fst st)"
    by (intro card_mono) auto
  with less have "card (U - fst st1) < k \<or> ds = []" by simp
  from "4.IH"(2) [OF inner ds this "4.prems"(3,4)] obtain st2 where
    "dfs_each k deps ds st1 = Some st2" "fst st1 \<subseteq> fst st2" by blast
  with inner mono show ?case by auto
qed

lemma dfs_bound_suffices:
  "\<exists>st. dfs_inner (dfs_bound deps) (dependencies_of deps) start ({}, []) = Some st"
proof -
  let ?U = "insert start (set (graph_nodes deps))"
  have fin: "finite ?U" by simp
  have closed: "\<forall>x \<in> ?U. set (dependencies_of deps x) \<subseteq> ?U"
  proof (intro ballI subsetI)
    fix x d
    assume "d \<in> set (dependencies_of deps x)"
    then obtain ds where "map_of deps x = Some ds" "d \<in> set ds"
      by (cases "map_of deps x") (auto simp: dependencies_of_def)
    then have "(x, ds) \<in> set deps" "d \<in> set ds" by (auto dest: map_of_SomeD)
    then have "d \<in> set (graph_nodes deps)" by (force simp: graph_nodes_def)
    then show "d \<in> ?U" by simp
  qed
  have "card ?U \<le> Suc (card (set (graph_nodes deps)))" by (simp add: card_insert_if)
  also have "\<dots> \<le> Suc (length (graph_nodes deps))" by (simp add: card_length)
  finally have "card (?U - fst ({} :: target set, [] :: target list)) < dfs_bound deps"
    by (simp add: dfs_bound_def)
  from dfs_fuel(1) [OF fin closed _ this, of start] show ?thesis by auto
qed

lemma dfs_dependencies_first:
  assumes "acyclic (dependency_edges deps)"
  shows "dependencies_first (dependencies_of deps) (dfs start deps) \<and> start \<in> set (dfs start deps)"
proof -
  from dfs_bound_suffices obtain st where
    st: "dfs_inner (dfs_bound deps) (dependencies_of deps) start ({}, []) = Some st" by blast
  from assms have ac: "acyclic {(x, d). d \<in> set (dependencies_of deps x)}"
    by (simp add: dependency_edges_def)
  have "dependencies_first (dependencies_of deps) (snd ({} :: target set, [] :: target list))"
    by (simp add: dependencies_first_def)
  from dfs_invariant(1) [OF ac st _ this] have
    "dependencies_first (dependencies_of deps) (snd st) \<and> start \<in> set (snd st)" by simp
  with st show ?thesis by (simp add: dfs_def)
qed


text \<open>On any graph, what the traversal appends was unvisited before, so nothing repeats.\<close>

lemma dfs_fresh:
  fixes deps :: "target \<Rightarrow> target list"
  shows "dfs_inner k deps n st = Some st' \<Longrightarrow> set (snd st) \<subseteq> fst st \<Longrightarrow> distinct (snd st) \<Longrightarrow>
           set (snd st') \<subseteq> fst st' \<and> distinct (snd st') \<and> fst st \<subseteq> fst st'
           \<and> set (snd st') \<subseteq> set (snd st) \<union> (fst st' - fst st)"
    and "dfs_each k deps ds st = Some st' \<Longrightarrow> set (snd st) \<subseteq> fst st \<Longrightarrow> distinct (snd st) \<Longrightarrow>
           set (snd st') \<subseteq> fst st' \<and> distinct (snd st') \<and> fst st \<subseteq> fst st'
           \<and> set (snd st') \<subseteq> set (snd st) \<union> (fst st' - fst st)"
proof (induction k deps n st and k deps ds st arbitrary: st' and st'
    rule: dfs_inner_dfs_each.induct)
  case (1 deps node st)
  then show ?case by simp
next
  case (2 k deps node st)
  show ?case
  proof (cases "node \<in> fst st")
    case True
    with "2.prems" show ?thesis by auto
  next
    case False
    with "2.prems"(1) obtain st1 where
      each: "dfs_each k deps (deps node) (insert node (fst st), snd st) = Some st1"
      and st': "st' = (fst st1, snd st1 @ [node])"
      by (auto split: option.splits)
    from "2.prems"(2) have sub: "set (snd (insert node (fst st), snd st)) \<subseteq> fst (insert node (fst st), snd st)"
      by auto
    from "2.prems"(3) have dist: "distinct (snd (insert node (fst st), snd st))" by simp
    from "2.IH" [OF False each sub dist]
    have a: "set (snd st1) \<subseteq> fst st1" and b: "distinct (snd st1)"
      and c: "insert node (fst st) \<subseteq> fst st1"
      and d: "set (snd st1) \<subseteq> set (snd st) \<union> (fst st1 - insert node (fst st))"
      by simp_all
    from False "2.prems"(2) have "node \<notin> set (snd st)" by auto
    with d have "node \<notin> set (snd st1)" by auto
    with a b c d False show ?thesis by (auto simp: st')
  qed
next
  case (3 k deps st)
  then show ?case by simp
next
  case (4 k deps d ds st)
  from "4.prems"(1) obtain st1 where
    inner: "dfs_inner k deps d st = Some st1" and each: "dfs_each k deps ds st1 = Some st'"
    by (auto split: option.splits)
  from "4.IH"(1) [OF inner "4.prems"(2,3)]
  have a: "set (snd st1) \<subseteq> fst st1" and b: "distinct (snd st1)"
    and c: "fst st \<subseteq> fst st1"
    and e: "set (snd st1) \<subseteq> set (snd st) \<union> (fst st1 - fst st)"
    by simp_all
  from "4.IH"(2) [OF inner each a b] c e show ?case by auto
qed

text \<open>Whatever the graph, the path has no repetition and ends with the start target.\<close>

lemma dfs_start_last:
  "distinct (dfs start deps) \<and> (\<exists>p. dfs start deps = p @ [start] \<and> start \<notin> set p)"
proof -
  from dfs_bound_suffices obtain st where
    st: "dfs_inner (dfs_bound deps) (dependencies_of deps) start ({}, []) = Some st" by blast
  from dfs_fresh(1) [OF st] have dist: "distinct (snd st)" by simp
  from st obtain k where k: "dfs_bound deps = Suc k" by (simp add: dfs_bound_def)
  from st obtain st1 where "snd st = snd st1 @ [start]"
    unfolding k by (auto split: option.splits)
  with dist st show ?thesis by (auto simp: dfs_def)
qed

text \<open>
  Order is inherited by subsequences: in a list without repetition, what stands before
  \<open>x\<close> still stands before \<open>x\<close> in any subsequence that holds both.
\<close>

lemma before_in_subseq:
  assumes sub: "subseq new path" and dist: "distinct path"
    and before: "d \<in> set (takeWhile (\<lambda>y. y \<noteq> x) path)"
    and d: "d \<in> set new" and x: "x \<in> set new"
  shows "d \<in> set (takeWhile (\<lambda>y. y \<noteq> x) new)"
proof -
  let ?a = "takeWhile (\<lambda>y. y \<noteq> x) path" and ?b = "dropWhile (\<lambda>y. y \<noteq> x) path"
  have path: "path = ?a @ ?b" by simp
  with sub have "subseq new (?a @ ?b)" by simp
  then obtain n1 n2 where new: "new = n1 @ n2" and s1: "subseq n1 ?a" and s2: "subseq n2 ?b"
    by (rule subseq_appendE)
  from dist path have "distinct (?a @ ?b)" by simp
  then have disj: "set ?a \<inter> set ?b = {}" by (simp only: distinct_append)
  from s1 have sub1: "set n1 \<subseteq> set ?a" by (auto elim: list_emb_set)
  from s2 have sub2: "set n2 \<subseteq> set ?b" by (auto elim: list_emb_set)
  from before disj have "d \<notin> set ?b" by blast
  with sub2 d new have d1: "d \<in> set n1" by auto
  from sub1 have "\<And>y. y \<in> set n1 \<Longrightarrow> y \<noteq> x" by (auto dest: set_takeWhileD)
  then have "takeWhile (\<lambda>y. y \<noteq> x) (n1 @ n2) = n1 @ takeWhile (\<lambda>y. y \<noteq> x) n2"
    by (rule takeWhile_append2)
  with d1 new show ?thesis by simp
qed

text \<open>
  Claim C2. Let the dependency graph be acyclic, or let the edge start at the requested
  target and be no self-loop. If \<open>x\<close> depends on \<open>d\<close> and one call of \<open>schedule\<close> hands both
  to \<open>submit\<close>, then \<open>d\<close> stands before \<open>x\<close> in the sequence of \<open>submit\<close> calls. No target is
  submitted twice in one call, and when the call returns, the list it returns is that
  sequence, so \<open>d\<close> precedes \<open>x\<close> there too.
\<close>

theorem schedule_dependency_before_dependent:
  assumes graph: "acyclic (dependency_edges (dependencies wfl)) \<or> (x = t \<and> d \<noteq> t)"
    and edge: "d \<in> set (dependencies_of (dependencies wfl) x)"
    and d: "d \<in> set (submit_calls (schedule cls wfl s t))"
    and x: "x \<in> set (submit_calls (schedule cls wfl s t))"
  shows "d \<in> set (takeWhile (\<lambda>y. y \<noteq> x) (submit_calls (schedule cls wfl s t)))
         \<and> distinct (submit_calls (schedule cls wfl s t))
         \<and> (\<forall>l. returned (schedule cls wfl s t) = Inr l \<longrightarrow> l = submit_calls (schedule cls wfl s t))"
proof -
  let ?path = "dfs t (dependencies wfl)"
  let ?run = "schedule_loop cls wfl ?path s [] []"
  from d have ns: "\<not> submitted cls s t" by (auto simp: schedule_def)
  then have run: "schedule cls wfl s t = ?run" by (simp add: schedule_def)
  from schedule_loop_calls [of cls wfl ?path s "[]" "[]"]
  have sub: "subseq (submit_calls ?run) ?path" by auto
  from dfs_start_last [of t "dependencies wfl"] obtain p where
    dist: "distinct ?path" and p: "?path = p @ [t]" "t \<notin> set p" by blast
  from sub dist have dist_calls: "distinct (submit_calls ?run)"
    using subseqs_distinctD [of "submit_calls ?run" ?path] by simp
  from sub d x run have in_path: "d \<in> set ?path" "x \<in> set ?path"
    by (auto elim: list_emb_set)
  have "d \<in> set (takeWhile (\<lambda>y. y \<noteq> x) ?path)"
    using graph
  proof
    assume "acyclic (dependency_edges (dependencies wfl))"
    from dfs_dependencies_first [OF this, of t] in_path(2) edge show ?thesis
      by (simp add: dependencies_first_def)
  next
    assume root: "x = t \<and> d \<noteq> t"
    from p(2) have "takeWhile (\<lambda>y. y \<noteq> t) (p @ [t]) = p @ takeWhile (\<lambda>y. y \<noteq> t) [t]"
      by (intro takeWhile_append2) auto
    with root in_path(1) p(1) show ?thesis by auto
  qed
  note before = this
  from d have d': "d \<in> set (submit_calls ?run)" unfolding run .
  from x have x': "x \<in> set (submit_calls ?run)" unfolding run .
  from before_in_subseq [OF sub dist before d' x']
  have "d \<in> set (takeWhile (\<lambda>y. y \<noteq> x) (submit_calls ?run))" .
  moreover have "\<forall>l. returned ?run = Inr l \<longrightarrow> l = submit_calls ?run"
  proof (intro allI impI)
    fix l
    assume "returned ?run = Inr l"
    from schedule_loop_returned [OF this refl] show "l = submit_calls ?run" by (rule sym)
  qed
  ultimately show ?thesis using dist_calls unfolding run by blast
qed

text \<open>The example graph is acyclic: every edge goes down one stage.\<close>

lemma example_dependencies:
  "dependencies_of (dependencies example_workflow) t =
     (if t = align_target then [index_target]
      else if t = report_target then [index_target, align_target] else [])"
  by (simp add: dependencies_of_def example_workflow_def)

lemma example_acyclic: "acyclic (dependency_edges (dependencies example_workflow))"
proof (rule acyclicI_order [where f = stage])
  fix a b
  assume "(a, b) \<in> dependency_edges (dependencies example_workflow)"
  then have b: "b \<in> set (dependencies_of (dependencies example_workflow) a)"
    by (simp add: dependency_edges_def)
  show "stage b < stage a"
  proof (cases "a = align_target")
    case True
    with b show ?thesis by (simp add: example_dependencies stage_def)
  next
    case False
    note na = this
    show ?thesis
    proof (cases "a = report_target")
      case True
      with b show ?thesis by (auto simp: example_dependencies stage_def)
    next
      case False
      with na b show ?thesis by (simp add: example_dependencies)
    qed
  qed
qed

theorem schedule_dependency_before_dependent_witness:
  "acyclic (dependency_edges (dependencies example_workflow))
   \<and> index_target \<in> set (dependencies_of (dependencies example_workflow) align_target)
   \<and> submit_calls (schedule tracking_class example_workflow [] report_target)
        = [index_target, align_target, report_target]
   \<and> index_target \<in> set (takeWhile (\<lambda>y. y \<noteq> align_target) [index_target, align_target, report_target])"
proof -
  have e: "index_target \<in> set (dependencies_of (dependencies example_workflow) align_target)"
    by (simp add: example_dependencies)
  have c: "submit_calls (schedule tracking_class example_workflow [] report_target)
        = [index_target, align_target, report_target]"
    by (simp add: example_schedule)
  have d: "index_target \<in> set (submit_calls (schedule tracking_class example_workflow [] report_target))"
    and x: "align_target \<in> set (submit_calls (schedule tracking_class example_workflow [] report_target))"
    by (simp_all add: c)
  from schedule_dependency_before_dependent [OF disjI1 [OF example_acyclic] e d x] e c example_acyclic
  show ?thesis by simp
qed


end
